theory Spec2Isabelle
  imports Complex_Main "HOL-Library.Word"
begin

section \<open>Pixel buffers\<close>

text \<open>
  The program keeps its images as PIL images.  A PIL image has a size, a mode and one
  tuple of 8-bit samples per pixel; the modes the pixel engine works on are RGB
  (three samples) and RGBA (four samples, the last one alpha).  The mode is carried by
  the constructor of the sample storage, so an alpha channel exists exactly in mode RGBA.
  Pixel \<open>(x, y)\<close> is stored at offset \<open>y * xsize + x\<close>.
\<close>

type_synonym rgb = "8 word \<times> 8 word \<times> 8 word"
type_synonym rgba = "8 word \<times> 8 word \<times> 8 word \<times> 8 word"

datatype pixdata = RGB "rgb list" | RGBA "rgba list"

record image =
  xsize :: nat
  ysize :: nat
  im :: pixdata

datatype py_error = IndexError | ValueError | ZeroDivisionError

definition mode :: "image \<Rightarrow> string" where
  "mode img = (case im img of RGB _ \<Rightarrow> ''RGB'' | RGBA _ \<Rightarrow> ''RGBA'')"

text \<open>Number of stored pixels, and the invariant PIL maintains for every image.\<close>

fun npixels :: "pixdata \<Rightarrow> nat" where
  "npixels (RGB ps) = length ps"
| "npixels (RGBA ps) = length ps"

definition wf_image :: "image \<Rightarrow> bool" where
  "wf_image img = (npixels (im img) = xsize img * ysize img)"

text \<open>\<open>img.convert("RGBA")\<close>: a new image; an RGB pixel becomes opaque.\<close>

fun rgba_of :: "pixdata \<Rightarrow> rgba list" where
  "rgba_of (RGB ps) = map (\<lambda>(r, g, b). (r, g, b, 255)) ps"
| "rgba_of (RGBA ps) = ps"

definition convert_RGBA :: "image \<Rightarrow> image" where
  "convert_RGBA img = img\<lparr>im := RGBA (rgba_of (im img))\<rparr>"

text \<open>\<open>img.getdata()\<close> and \<open>img.putdata(new_data)\<close> of an RGBA image.\<close>

definition getdata :: "image \<Rightarrow> rgba list" where
  "getdata img = rgba_of (im img)"

definition putdata :: "image \<Rightarrow> rgba list \<Rightarrow> image" where
  "putdata img new_data = img\<lparr>im := RGBA new_data\<rparr>"

section \<open>Threshold segmentation\<close>

text \<open>
  \<open>remove_white_background\<close>; the threshold is the value the method reads from
  \<open>self.white_threshold\<close>.  The samples of a pixel are Python ints in \<open>0..255\<close>
  (\<open>uint\<close> of the stored byte) and are compared with the threshold as ints.
\<close>

definition is_white :: "int \<Rightarrow> rgba \<Rightarrow> bool" where
  "is_white threshold item =
     (case item of (r, g, b, a) \<Rightarrow>
        uint r \<ge> threshold \<and> uint g \<ge> threshold \<and> uint b \<ge> threshold)"

definition remove_white_background :: "int \<Rightarrow> image \<Rightarrow> image" where
  "remove_white_background threshold img0 =
     (let img = (if mode img0 \<noteq> ''RGBA'' then convert_RGBA img0 else img0);
          data = getdata img;
          new_data = map (\<lambda>item. if is_white threshold item then (255, 255, 255, 0) else item) data
      in putdata img new_data)"

section \<open>Region-growing flood fill\<close>

text \<open>
  Pixel access \<open>pixels[x, y]\<close> of an RGBA image of size \<open>w * h\<close>.  A coordinate
  outside \<open>[0, w) * [0, h)\<close> is an \<open>IndexError\<close> (PIL also accepts a negative
  coordinate, counted from the far edge; the model is stricter and counts it as a
  failure too, so that "no error" means every access was inside the image).
\<close>

definition inside :: "nat \<Rightarrow> nat \<Rightarrow> int \<Rightarrow> int \<Rightarrow> bool" where
  "inside w h x y = (0 \<le> x \<and> x < int w \<and> 0 \<le> y \<and> y < int h)"

definition offset :: "nat \<Rightarrow> int \<Rightarrow> int \<Rightarrow> nat" where
  "offset w x y = nat y * w + nat x"

definition getpixel :: "nat \<Rightarrow> nat \<Rightarrow> rgba list \<Rightarrow> int \<Rightarrow> int \<Rightarrow> py_error + rgba" where
  "getpixel w h px x y =
     (if inside w h x y \<and> offset w x y < length px then Inr (px ! offset w x y)
      else Inl IndexError)"

definition putpixel ::
  "nat \<Rightarrow> nat \<Rightarrow> rgba list \<Rightarrow> int \<Rightarrow> int \<Rightarrow> rgba \<Rightarrow> py_error + rgba list" where
  "putpixel w h px x y c =
     (if inside w h x y \<and> offset w x y < length px then Inr (px[offset w x y := c])
      else Inl IndexError)"

definition alpha :: "rgba \<Rightarrow> 8 word" where
  "alpha c = (case c of (r, g, b, a) \<Rightarrow> a)"

text \<open>The local function \<open>color_matches\<close>, with the tolerance it closes over.\<close>

definition color_matches :: "int \<Rightarrow> rgba \<Rightarrow> rgba \<Rightarrow> bool" where
  "color_matches tolerance c1 c2 =
     (case c1 of (r1, g1, b1, a1) \<Rightarrow> case c2 of (r2, g2, b2, a2) \<Rightarrow>
        \<bar>uint r1 - uint r2\<bar> \<le> tolerance \<and>
        \<bar>uint g1 - uint g2\<bar> \<le> tolerance \<and>
        \<bar>uint b1 - uint b2\<bar> \<le> tolerance)"

definition make_transparent :: "rgba \<Rightarrow> rgba" where
  "make_transparent c = (case c of (r, g, b, a) \<Rightarrow> (r, g, b, 0))"

text \<open>
  The \<open>while queue:\<close> loop of \<open>flood_fill_transparent\<close>.  Its variables are the
  pixel storage (mutated in place), the visited set, the work queue (a deque, popped on
  the left, appended on the right) and the counter \<open>pixels_changed\<close>; it returns the
  storage and the counter, or the error an access raised.
\<close>

function flood_loop ::
  "nat \<Rightarrow> nat \<Rightarrow> int \<Rightarrow> rgba \<Rightarrow> rgba list \<Rightarrow> (int \<times> int) set \<Rightarrow> (int \<times> int) list \<Rightarrow> nat
     \<Rightarrow> py_error + (rgba list \<times> nat)" where
  "flood_loop w h tol target px visited [] n = Inr (px, n)"
| "flood_loop w h tol target px visited ((x, y) # queue) n =
     (if (x, y) \<in> visited then flood_loop w h tol target px visited queue n
      else if x < 0 \<or> x \<ge> int w \<or> y < 0 \<or> y \<ge> int h
        then flood_loop w h tol target px visited queue n
      else case getpixel w h px x y of
          Inl e \<Rightarrow> Inl e
        | Inr current_color \<Rightarrow>
            if alpha current_color = 0
              then flood_loop w h tol target px (insert (x, y) visited) queue n
            else if \<not> color_matches tol current_color target
              then flood_loop w h tol target px (insert (x, y) visited) queue n
            else case putpixel w h px x y (make_transparent current_color) of
                Inl e \<Rightarrow> Inl e
              | Inr px' \<Rightarrow>
                  flood_loop w h tol target px' (insert (x, y) visited)
                    (queue @ [(x + 1, y), (x - 1, y), (x, y + 1), (x, y - 1)]) (n + 1))"
  by pat_completeness auto

termination
proof -
  have less: "card (({0..<int w} \<times> {0..<int h}) - visited) - Suc 0
      < card (({0..<int w} \<times> {0..<int h}) - visited)"
    if "(x, y) \<notin> visited" and "\<not> x < 0 \<and> \<not> int w \<le> x \<and> \<not> y < 0 \<and> \<not> int h \<le> y"
    for w h :: nat and x y :: int and visited :: "(int \<times> int) set"
  proof -
    from that have mem: "(x, y) \<in> ({0..<int w} \<times> {0..<int h}) - visited"
      by simp
    have fin: "finite (({0..<int w} \<times> {0..<int h}) - visited)"
      by simp
    from fin mem have "0 < card (({0..<int w} \<times> {0..<int h}) - visited)"
      unfolding card_gt_0_iff by blast
    then show ?thesis
      by arith
  qed
  show ?thesis
    by (relation "inv_image (less_than <*lex*> less_than)
          (\<lambda>(w, h, tol, target, px, visited, queue, n).
             (card (({0..<int w} \<times> {0..<int h}) - visited), length queue))")
       (simp_all add: less wf_lex_prod)
qed

declare flood_loop.simps [simp del]

section \<open>Application state\<close>

text \<open>
  The fields of \<open>ImageProcessorApp\<close> that the pixel engine, the undo history and the
  dimension handlers read or write.  The processed image is mutated in place by the
  flood fill and the history holds snapshots of it, so both are references into a store
  of image objects: \<open>heap\<close> maps an object to its current contents and \<open>next_ref\<close>
  is the next unused object.  The original image and the cached result of the external
  background remover are never mutated by the program (only copied) and are held by value.
  Tk variables hold their current value; an entry widget holds its text, a label what
  it shows.  Drawing the preview on the canvas (\<open>refresh_preview_display\<close>) reads the
  state and is not modelled.  A method that can raise returns \<open>py_error + app\<close>: the
  error, or the state after a normal return.
\<close>

text \<open>
  The text of an entry widget, as \<open>float(text)\<close> reads it: a text that \<open>float\<close>
  rejects with \<open>ValueError\<close>, or a text denoting a number.  Python floats are
  modelled by the real numbers they denote: the binary rounding of single arithmetic
  operations is not modelled, and the texts \<open>inf\<close> and \<open>nan\<close>, which \<open>float\<close> accepts
  too, have no counterpart.
\<close>

datatype entry_text = Unparsable | Parses real


text \<open>The texts the program writes to \<open>status_label\<close>.\<close>

datatype status_text =
    Status_Empty
  | Area_Is_Already_Transparent
  | Removed_Pixels nat
  | Undo_Successful
  | AI_Error

record app =
  heap :: "nat \<Rightarrow> image"
  next_ref :: nat
  original_image :: "image option"
  processed_image :: "nat option"
  bg_removed_cache :: "image option"
  edit_history :: "nat list"
  magic_wand_tolerance :: int
  scale_factor :: real
  white_threshold :: int
  remove_background :: bool
  bg_removal_method :: string
  width_inches :: real
  height_inches :: real
  dpi :: int
  lock_aspect_ratio :: bool
  updating_dimensions :: bool
  processing :: bool
  scale_entry :: entry_text
  width_entry :: entry_text
  height_entry :: entry_text
  scale_label :: real
  threshold_label :: int
  undo_label :: nat
  status_label :: status_text

definition max_history :: nat where
  "max_history = 20"

text \<open>
  \<open>update_undo_button\<close>: the label shows the number of steps; the button is enabled
  exactly when that number is positive.
\<close>

definition update_undo_button :: "app \<Rightarrow> app" where
  "update_undo_button s = s\<lparr>undo_label := length (edit_history s)\<rparr>"

section \<open>Undo history\<close>

text \<open>
  \<open>save_edit_state\<close>: \<open>edit_history.pop(0)\<close> drops the first element of a list that
  holds at least \<open>max_history\<close> elements; \<open>processed_image.copy()\<close> is a new object
  with the same contents.
\<close>

definition save_edit_state :: "app \<Rightarrow> app" where
  "save_edit_state s =
     (case processed_image s of
        None \<Rightarrow> s
      | Some p \<Rightarrow>
          let hist = (if length (edit_history s) \<ge> max_history
                        then tl (edit_history s) else edit_history s);
              snapshot = next_ref s
          in update_undo_button
               (s\<lparr>heap := (heap s)(snapshot := heap s p),
                  next_ref := Suc snapshot,
                  edit_history := hist @ [snapshot]\<rparr>))"

text \<open>\<open>undo_edit\<close>: \<open>edit_history.pop()\<close> removes and returns the last element.\<close>

definition undo_edit :: "app \<Rightarrow> app" where
  "undo_edit s =
     (if length (edit_history s) > 0
      then (update_undo_button
              (s\<lparr>processed_image := Some (last (edit_history s)),
                 edit_history := butlast (edit_history s)\<rparr>))
           \<lparr>status_label := Undo_Successful\<rparr>
      else s)"

text \<open>
  Well-formedness of the store: the processed image and the snapshots are objects that
  have been allocated, that is, they lie below the allocation pointer.
\<close>

definition wf_app :: "app \<Rightarrow> bool" where
  "wf_app s =
     ((\<forall>p. processed_image s = Some p \<longrightarrow> p < next_ref s) \<and>
      (\<forall>r \<in> set (edit_history s). r < next_ref s))"

section \<open>Flood fill on the processed image\<close>

text \<open>
  \<open>flood_fill_transparent\<close>.  The snapshot is pushed first; an image that is not RGBA
  is replaced by its conversion (a new object); the pixel access object writes into the
  processed image itself.  A seed outside the image makes the first pixel read raise.
\<close>

definition flood_fill_transparent :: "app \<Rightarrow> int \<Rightarrow> int \<Rightarrow> py_error + app" where
  "flood_fill_transparent s start_x start_y =
     (case processed_image s of
        None \<Rightarrow> Inr s
      | Some p0 \<Rightarrow>
          let s1 = save_edit_state s;
              s2 = (if mode (heap s1 p0) \<noteq> ''RGBA''
                    then s1\<lparr>heap := (heap s1)(next_ref s1 := convert_RGBA (heap s1 p0)),
                            next_ref := Suc (next_ref s1),
                            processed_image := Some (next_ref s1)\<rparr>
                    else s1);
              p = (if mode (heap s1 p0) \<noteq> ''RGBA'' then next_ref s1 else p0);
              img_width = xsize (heap s2 p);
              img_height = ysize (heap s2 p);
              pixels = getdata (heap s2 p)
          in case getpixel img_width img_height pixels start_x start_y of
               Inl e \<Rightarrow> Inl e
             | Inr target_color \<Rightarrow>
                 if alpha target_color = 0
                 then Inr ((update_undo_button
                              (s2\<lparr>edit_history := butlast (edit_history s2)\<rparr>))
                           \<lparr>status_label := Area_Is_Already_Transparent\<rparr>)
                 else
                   (case flood_loop img_width img_height (magic_wand_tolerance s2)
                           target_color pixels {} [(start_x, start_y)] 0 of
                      Inl e \<Rightarrow> Inl e
                    | Inr (pixels', pixels_changed) \<Rightarrow>
                        Inr (s2\<lparr>heap := (heap s2)(p := putdata (heap s2 p) pixels'),
                                status_label := Removed_Pixels pixels_changed\<rparr>)))"

section \<open>Scale, physical size and resolution\<close>

text \<open>
  \<open>round(x, ndigits)\<close> on the real number a float denotes: the multiple of
  \<open>10 ^ (- ndigits)\<close> nearest to \<open>x\<close>, a tie going to the even multiple.
  \<open>int(x)\<close> truncates towards zero.
\<close>

definition py_round :: "real \<Rightarrow> int" where
  "py_round x =
     (let f = \<lfloor>x\<rfloor>; d = x - of_int f
      in if d < 1 / 2 then f else if d > 1 / 2 then f + 1
         else if even f then f else f + 1)"


definition py_int :: "real \<Rightarrow> int" where
  "py_int x = (if x \<ge> 0 then \<lfloor>x\<rfloor> else \<lceil>x\<rceil>)"






section \<open>Reprocessing\<close>

text \<open>
  The collaborators outside the program: whether the AI background remover was
  importable (\<open>AI_AVAILABLE\<close>), what it returns for an image (\<open>None\<close> when it
  raises), and PIL's Lanczos resampling to a given size.
\<close>

record backend =
  ai_available :: bool
  bg_remove :: "image \<Rightarrow> image option"
  resize_lanczos :: "image \<Rightarrow> nat \<Rightarrow> nat \<Rightarrow> image"

text \<open>
  \<open>remove_background_ai\<close> returns the image and leaves the cache and the status label
  in the state.  Every image it returns is a new object.
\<close>

definition remove_background_ai :: "backend \<Rightarrow> app \<Rightarrow> image \<Rightarrow> image \<times> app" where
  "remove_background_ai ext s img =
     (if \<not> ai_available ext then (img, s)
      else case bg_removed_cache s of
          Some cached \<Rightarrow> (cached, s)
        | None \<Rightarrow>
            (case bg_remove ext img of
               Some result \<Rightarrow> (result, s\<lparr>bg_removed_cache := Some result, status_label := Status_Empty\<rparr>)
             | None \<Rightarrow>
                 (remove_white_background (white_threshold s) img, s\<lparr>status_label := AI_Error\<rparr>)))"

text \<open>
  \<open>process_image\<close> works on a copy of the original image and returns a new image:
  background removal first, then the resize to the target size in pixels.
\<close>

definition process_image :: "backend \<Rightarrow> app \<Rightarrow> image option \<times> app" where
  "process_image ext s =
     (case original_image s of
        None \<Rightarrow> (None, s)
      | Some orig \<Rightarrow>
          let (img, s1) =
                (if remove_background s
                 then (if bg_removal_method s = ''ai'' \<and> ai_available ext
                       then remove_background_ai ext s orig
                       else (remove_white_background (white_threshold s) orig, s))
                 else (orig, s));
              target_width = py_int (width_inches s * real_of_int (dpi s));
              target_height = py_int (height_inches s * real_of_int (dpi s));
              img' = (if target_width > 0 \<and> target_height > 0
                      then resize_lanczos ext img (nat target_width) (nat target_height)
                      else img)
          in (Some img', s1))"

text \<open>
  \<open>update_preview\<close>: the history is cleared, the image is processed again from the
  original and the result, a new object, becomes the processed image.  Drawing the
  preview on the canvas is not part of the model.
\<close>

definition update_preview :: "backend \<Rightarrow> app \<Rightarrow> app" where
  "update_preview ext s =
     (case original_image s of
        None \<Rightarrow> s
      | Some orig \<Rightarrow>
          if processing s then s
          else
            let s1 = update_undo_button (s\<lparr>processing := True, edit_history := []\<rparr>);
                (res, s2) = process_image ext s1
            in case res of
                 None \<Rightarrow> s2\<lparr>processed_image := None, processing := False\<rparr>
               | Some img \<Rightarrow>
                   s2\<lparr>heap := (heap s2)(next_ref s2 := img),
                      next_ref := Suc (next_ref s2),
                      processed_image := Some (next_ref s2),
                      processing := False\<rparr>)"




section \<open>The region a flood fill is to clear\<close>

text \<open>
  A pixel is fillable when it lies in the image, is not fully transparent and matches the
  target colour within the tolerance, channel by channel.  Two pixels are adjacent when
  they are neighbours in the 4-connected grid.  The region of a seed is everything that
  can be reached from the seed by steps between adjacent pixels, all of them fillable.
\<close>

definition fillable :: "nat \<Rightarrow> nat \<Rightarrow> int \<Rightarrow> rgba \<Rightarrow> rgba list \<Rightarrow> int \<times> int \<Rightarrow> bool" where
  "fillable w h tol target px p =
     (case p of (x, y) \<Rightarrow>
        inside w h x y \<and> alpha (px ! offset w x y) \<noteq> 0
        \<and> color_matches tol (px ! offset w x y) target)"

definition adjacent :: "int \<times> int \<Rightarrow> int \<times> int \<Rightarrow> bool" where
  "adjacent p q =
     (case p of (x, y) \<Rightarrow>
        q = (x + 1, y) \<or> q = (x - 1, y) \<or> q = (x, y + 1) \<or> q = (x, y - 1))"

inductive_set region ::
  "nat \<Rightarrow> nat \<Rightarrow> int \<Rightarrow> rgba \<Rightarrow> rgba list \<Rightarrow> int \<times> int \<Rightarrow> (int \<times> int) set"
  for w h tol target px seed where
    seed: "fillable w h tol target px seed \<Longrightarrow> seed \<in> region w h tol target px seed"
  | step: "p \<in> region w h tol target px seed \<Longrightarrow> adjacent p q \<Longrightarrow> fillable w h tol target px q
           \<Longrightarrow> q \<in> region w h tol target px seed"

text \<open>
  The invariant of the loop, relative to the pixels \<open>px0\<close> the loop started from:
  the storage keeps its size and every visited coordinate is in the image; the storage
  differs from \<open>px0\<close> exactly in the visited fillable pixels, whose alpha is 0; every
  fillable pixel that is visited or queued belongs to the region; the seed and every
  fillable neighbour of a visited fillable pixel is visited or queued; and the counter
  is the number of visited fillable pixels.
\<close>

definition inv_shape :: "nat \<Rightarrow> nat \<Rightarrow> rgba list \<Rightarrow> rgba list \<Rightarrow> (int \<times> int) set \<Rightarrow> bool" where
  "inv_shape w h px0 px visited =
     (length px0 = w * h \<and> length px = w * h \<and> (\<forall>p \<in> visited. inside w h (fst p) (snd p)))"

definition inv_pixels ::
  "nat \<Rightarrow> nat \<Rightarrow> int \<Rightarrow> rgba \<Rightarrow> rgba list \<Rightarrow> rgba list \<Rightarrow> (int \<times> int) set \<Rightarrow> bool" where
  "inv_pixels w h tol target px0 px visited =
     (\<forall>x y. inside w h x y \<longrightarrow>
        px ! offset w x y =
          (if (x, y) \<in> visited \<and> fillable w h tol target px0 (x, y)
           then make_transparent (px0 ! offset w x y) else px0 ! offset w x y))"

definition inv_sound ::
  "nat \<Rightarrow> nat \<Rightarrow> int \<Rightarrow> rgba \<Rightarrow> rgba list \<Rightarrow> int \<times> int \<Rightarrow> (int \<times> int) set \<Rightarrow> (int \<times> int) list \<Rightarrow> bool" where
  "inv_sound w h tol target px0 seed visited queue =
     (\<forall>p \<in> visited \<union> set queue. fillable w h tol target px0 p \<longrightarrow> p \<in> region w h tol target px0 seed)"

definition inv_closed ::
  "nat \<Rightarrow> nat \<Rightarrow> int \<Rightarrow> rgba \<Rightarrow> rgba list \<Rightarrow> int \<times> int \<Rightarrow> (int \<times> int) set \<Rightarrow> (int \<times> int) list \<Rightarrow> bool" where
  "inv_closed w h tol target px0 seed visited queue =
     ((fillable w h tol target px0 seed \<longrightarrow> seed \<in> visited \<union> set queue) \<and>
      (\<forall>p \<in> visited. fillable w h tol target px0 p \<longrightarrow>
         (\<forall>q. adjacent p q \<longrightarrow> fillable w h tol target px0 q \<longrightarrow> q \<in> visited \<union> set queue)))"

definition inv_count ::
  "nat \<Rightarrow> nat \<Rightarrow> int \<Rightarrow> rgba \<Rightarrow> rgba list \<Rightarrow> (int \<times> int) set \<Rightarrow> nat \<Rightarrow> bool" where
  "inv_count w h tol target px0 visited n =
     (n = card {p \<in> visited. fillable w h tol target px0 p})"

definition flood_inv ::
  "nat \<Rightarrow> nat \<Rightarrow> int \<Rightarrow> rgba \<Rightarrow> rgba list \<Rightarrow> int \<times> int \<Rightarrow> rgba list \<Rightarrow> (int \<times> int) set
     \<Rightarrow> (int \<times> int) list \<Rightarrow> nat \<Rightarrow> bool" where
  "flood_inv w h tol target px0 seed px visited queue n =
     (inv_shape w h px0 px visited \<and> inv_pixels w h tol target px0 px visited \<and>
      inv_sound w h tol target px0 seed visited queue \<and>
      inv_closed w h tol target px0 seed visited queue \<and>
      inv_count w h tol target px0 visited n)"

section \<open>A worked example\<close>

text \<open>
  A strip of three opaque pixels: the seed colour \<open>(240, 240, 240)\<close>, a neighbour
  \<open>(235, 241, 239)\<close> within tolerance 32 of it, and a pixel \<open>(150, 150, 150)\<close> that
  is not.  The application state is the one after loading this image: it is the
  processed image (object 0), nothing has been edited yet.
\<close>

definition example_image :: image where
  "example_image =
     \<lparr>xsize = 3, ysize = 1,
      im = RGBA [(240, 240, 240, 255), (235, 241, 239, 255), (150, 150, 150, 255)]\<rparr>"

definition example_app :: app where
  "example_app =
     \<lparr>heap = (\<lambda>_. example_image), next_ref = 1,
      original_image = Some example_image, processed_image = Some 0,
      bg_removed_cache = None, edit_history = [],
      magic_wand_tolerance = 32, scale_factor = 1, white_threshold = 240,
      remove_background = False, bg_removal_method = ''threshold'',
      width_inches = 1 / 100, height_inches = 0, dpi = 300,
      lock_aspect_ratio = True, updating_dimensions = False, processing = False,
      scale_entry = Parses 1, width_entry = Parses (1 / 100), height_entry = Parses 0,
      scale_label = 1, threshold_label = 240, undo_label = 0,
      status_label = Status_Empty\<rparr>"

text \<open>
  A second example: an image whose pixel \<open>(0, 0)\<close> is fully transparent, in a state
  whose history is full (20 snapshots, the objects 1 to 20).
\<close>

definition transparent_image :: image where
  "transparent_image =
     \<lparr>xsize = 2, ysize = 1, im = RGBA [(10, 20, 30, 0), (200, 200, 200, 255)]\<rparr>"

definition full_history_app :: app where
  "full_history_app =
     example_app\<lparr>heap := (\<lambda>_. transparent_image), next_ref := 21,
       original_image := Some transparent_image,
       edit_history := [1..<21], undo_label := 20\<rparr>"









section \<open>Properties of the threshold segmenter\<close>

lemma mode_RGBA_iff: "mode img = ''RGBA'' \<longleftrightarrow> (\<exists>ps. im img = RGBA ps)"
  by (cases "im img") (simp_all add: mode_def)





section \<open>Correctness of the flood fill\<close>

lemma offset_less: "inside w h x y \<Longrightarrow> offset w x y < w * h"
proof -
  assume a: "inside w h x y"
  then have x: "nat x < w" and y: "Suc (nat y) \<le> h"
    by (auto simp: inside_def)
  have "nat y * w + nat x < Suc (nat y) * w"
    using x by simp
  also have "\<dots> \<le> h * w"
    using y by (rule mult_le_mono1)
  finally show ?thesis
    by (simp add: offset_def mult.commute)
qed

lemma offset_inj:
  assumes "inside w h x y" and "inside w h x' y'" and "offset w x y = offset w x' y'"
  shows "x = x' \<and> y = y'"
proof -
  from assms(1,2) have b: "nat x < w" "nat x' < w" "0 \<le> x" "0 \<le> x'" "0 \<le> y" "0 \<le> y'"
    by (auto simp: inside_def)
  from assms(3) have e: "nat y * w + nat x = nat y' * w + nat x'"
    by (simp add: offset_def)
  from e have "(nat y * w + nat x) mod w = (nat y' * w + nat x') mod w"
    by simp
  with b have 1: "nat x = nat x'"
    by simp
  from e have "(nat y * w + nat x) div w = (nat y' * w + nat x') div w"
    by simp
  with b have 2: "nat y = nat y'"
    by simp
  from 1 2 b show ?thesis
    by arith
qed

lemma fillable_inside: "fillable w h tol target px (x, y) \<Longrightarrow> inside w h x y"
  by (simp add: fillable_def)


lemma inv_shape_finite:
  assumes "inv_shape w h px0 px visited"
  shows "finite visited"
proof (rule finite_subset)
  show "visited \<subseteq> {0..<int w} \<times> {0..<int h}"
    using assms by (auto simp: inv_shape_def inside_def)
  show "finite ({0..<int w} \<times> {0..<int h})"
    by simp
qed

lemma inv_shape_insert:
  "inv_shape w h px0 px visited \<Longrightarrow> inside w h x y \<Longrightarrow> length px' = length px
   \<Longrightarrow> inv_shape w h px0 px' (insert (x, y) visited)"
  by (simp add: inv_shape_def)

lemma inv_pixels_current:
  assumes "inv_shape w h px0 px visited" and "inv_pixels w h tol target px0 px visited"
    and "inside w h x y" and "(x, y) \<notin> visited"
  shows "getpixel w h px x y = Inr (px0 ! offset w x y)"
proof -
  from assms(1,3) have "offset w x y < length px"
    by (simp add: inv_shape_def offset_less)
  moreover from assms(2,3,4) have "px ! offset w x y = px0 ! offset w x y"
    by (simp add: inv_pixels_def)
  ultimately show ?thesis
    using assms(3) by (simp add: getpixel_def)
qed

lemma inv_pixels_mark:
  assumes "inv_pixels w h tol target px0 px visited"
    and "\<not> fillable w h tol target px0 (x, y)"
  shows "inv_pixels w h tol target px0 px (insert (x, y) visited)"
  using assms unfolding inv_pixels_def by auto

lemma inv_pixels_fill:
  assumes sh: "inv_shape w h px0 px visited"
    and px: "inv_pixels w h tol target px0 px visited"
    and ins: "inside w h x y" and fill: "fillable w h tol target px0 (x, y)"
  shows "inv_pixels w h tol target px0
           (px[offset w x y := make_transparent (px0 ! offset w x y)]) (insert (x, y) visited)"
  unfolding inv_pixels_def
proof (intro allI impI)
  fix x' y'
  assume ins': "inside w h x' y'"
  let ?px' = "px[offset w x y := make_transparent (px0 ! offset w x y)]"
  show "?px' ! offset w x' y' =
      (if (x', y') \<in> insert (x, y) visited \<and> fillable w h tol target px0 (x', y')
       then make_transparent (px0 ! offset w x' y') else px0 ! offset w x' y')"
  proof (cases "(x', y') = (x, y)")
    case True
    from sh ins have "offset w x y < length px"
      by (simp add: inv_shape_def offset_less)
    with True fill show ?thesis
      by simp
  next
    case False
    with ins ins' have "offset w x y \<noteq> offset w x' y'"
      using offset_inj by blast
    then have "?px' ! offset w x' y' = px ! offset w x' y'"
      by simp
    also from px ins' have "\<dots> =
      (if (x', y') \<in> visited \<and> fillable w h tol target px0 (x', y')
       then make_transparent (px0 ! offset w x' y') else px0 ! offset w x' y')"
      by (simp add: inv_pixels_def)
    finally show ?thesis
      using False by auto
  qed
qed

lemma inv_sound_drop:
  "inv_sound w h tol target px0 seed visited (p # queue)
   \<Longrightarrow> inv_sound w h tol target px0 seed visited queue"
  by (simp add: inv_sound_def)

lemma inv_sound_mark:
  "inv_sound w h tol target px0 seed visited (p # queue)
   \<Longrightarrow> inv_sound w h tol target px0 seed (insert p visited) queue"
  by (simp add: inv_sound_def)

lemma inv_sound_fill:
  assumes "inv_sound w h tol target px0 seed visited ((x, y) # queue)"
    and "fillable w h tol target px0 (x, y)"
  shows "inv_sound w h tol target px0 seed (insert (x, y) visited)
           (queue @ [(x + 1, y), (x - 1, y), (x, y + 1), (x, y - 1)])"
proof -
  from assms have r: "(x, y) \<in> region w h tol target px0 seed"
    by (simp add: inv_sound_def)
  have "q \<in> region w h tol target px0 seed"
    if "q \<in> set [(x + 1, y), (x - 1, y), (x, y + 1), (x, y - 1)]"
      and "fillable w h tol target px0 q" for q
  proof -
    from that(1) have "adjacent (x, y) q"
      by (auto simp: adjacent_def)
    with r show ?thesis
      using that(2) by (rule region.step)
  qed
  with assms(1) show ?thesis
    unfolding inv_sound_def by auto
qed

lemma inv_closed_drop:
  assumes "inv_closed w h tol target px0 seed visited (p # queue)"
    and "p \<in> visited \<or> \<not> fillable w h tol target px0 p"
  shows "inv_closed w h tol target px0 seed visited queue"
  using assms unfolding inv_closed_def by auto

lemma inv_closed_mark:
  assumes "inv_closed w h tol target px0 seed visited (p # queue)"
    and "\<not> fillable w h tol target px0 p"
  shows "inv_closed w h tol target px0 seed (insert p visited) queue"
  using assms unfolding inv_closed_def by auto

lemma inv_closed_fill:
  assumes "inv_closed w h tol target px0 seed visited ((x, y) # queue)"
  shows "inv_closed w h tol target px0 seed (insert (x, y) visited)
           (queue @ [(x + 1, y), (x - 1, y), (x, y + 1), (x, y - 1)])"
proof -
  have nb: "q \<in> set [(x + 1, y), (x - 1, y), (x, y + 1), (x, y - 1)]" if "adjacent (x, y) q" for q
    using that by (auto simp: adjacent_def)
  show ?thesis
    using assms nb unfolding inv_closed_def by auto
qed

lemma inv_count_mark:
  assumes "inv_count w h tol target px0 visited n"
    and "\<not> fillable w h tol target px0 p"
  shows "inv_count w h tol target px0 (insert p visited) n"
proof -
  from assms(2) have "{q \<in> insert p visited. fillable w h tol target px0 q}
      = {q \<in> visited. fillable w h tol target px0 q}"
    by auto
  with assms(1) show ?thesis
    by (simp add: inv_count_def)
qed

lemma inv_count_fill:
  assumes "inv_count w h tol target px0 visited n" and "finite visited"
    and "fillable w h tol target px0 p" and "p \<notin> visited"
  shows "inv_count w h tol target px0 (insert p visited) (n + 1)"
proof -
  from assms(3) have "{q \<in> insert p visited. fillable w h tol target px0 q}
      = insert p {q \<in> visited. fillable w h tol target px0 q}"
    by auto
  moreover from assms(2) have "finite {q \<in> visited. fillable w h tol target px0 q}"
    by simp
  moreover from assms(4) have "p \<notin> {q \<in> visited. fillable w h tol target px0 q}"
    by simp
  ultimately show ?thesis
    using assms(1) by (simp add: inv_count_def)
qed


lemma flood_inv_initial:
  assumes "length px0 = w * h"
  shows "flood_inv w h tol target px0 seed px0 {} [seed] 0"
  using assms
  by (auto simp: flood_inv_def inv_shape_def inv_pixels_def inv_sound_def inv_closed_def
      inv_count_def intro: region.seed)

lemma region_fillable:
  "p \<in> region w h tol target px0 seed \<Longrightarrow> fillable w h tol target px0 p"
  by (induction rule: region.induct) simp_all

lemma flood_inv_final:
  assumes "flood_inv w h tol target px0 seed px visited [] n"
  shows "{p \<in> visited. fillable w h tol target px0 p} = region w h tol target px0 seed"
proof (rule equalityI)
  from assms show "{p \<in> visited. fillable w h tol target px0 p} \<subseteq> region w h tol target px0 seed"
    by (auto simp: flood_inv_def inv_sound_def)
next
  from assms have cl: "inv_closed w h tol target px0 seed visited []"
    by (simp add: flood_inv_def)
  then have cl': "\<forall>p\<in>visited. fillable w h tol target px0 p \<longrightarrow>
      (\<forall>q. adjacent p q \<longrightarrow> fillable w h tol target px0 q \<longrightarrow> q \<in> visited)"
    unfolding inv_closed_def by simp
  have "p \<in> visited" if "p \<in> region w h tol target px0 seed" for p
    using that
  proof (induction rule: region.induct)
    case seed
    with cl show ?case
      by (simp add: inv_closed_def)
  next
    case (step p q)
    from step.hyps(1) have "fillable w h tol target px0 p"
      by (rule region_fillable)
    with cl' step show ?case
      by blast
  qed
  then show "region w h tol target px0 seed \<subseteq> {p \<in> visited. fillable w h tol target px0 p}"
    by (auto intro: region_fillable)
qed

lemma flood_loop_invariant:
  assumes "flood_inv w h tol target px0 seed px visited queue n"
  shows "\<exists>px' visited' n'. flood_loop w h tol target px visited queue n = Inr (px', n')
           \<and> flood_inv w h tol target px0 seed px' visited' [] n'"
  using assms
proof (induction w h tol target px visited queue n rule: flood_loop.induct)
  case (1 w h tol target px visited n)
  then show ?case
    by (auto simp: flood_loop.simps)
next
  case (2 w h tol target px visited x y queue n)
  note inv = \<open>flood_inv w h tol target px0 seed px visited ((x, y) # queue) n\<close>
  then have sh: "inv_shape w h px0 px visited"
    and pxs: "inv_pixels w h tol target px0 px visited"
    and snd: "inv_sound w h tol target px0 seed visited ((x, y) # queue)"
    and cls: "inv_closed w h tol target px0 seed visited ((x, y) # queue)"
    and cnt: "inv_count w h tol target px0 visited n"
    by (simp_all add: flood_inv_def)
  show ?case
  proof (cases "(x, y) \<in> visited")
    case True
    with sh pxs snd cls cnt have "flood_inv w h tol target px0 seed px visited queue n"
      by (simp add: flood_inv_def inv_sound_drop inv_closed_drop)
    with True "2.IH"(1) show ?thesis
      by (simp add: flood_loop.simps)
  next
    case unvisited: False
    show ?thesis
    proof (cases "x < 0 \<or> x \<ge> int w \<or> y < 0 \<or> y \<ge> int h")
      case True
      then have "\<not> fillable w h tol target px0 (x, y)"
        by (auto simp: fillable_def inside_def)
      with sh pxs snd cls cnt have "flood_inv w h tol target px0 seed px visited queue n"
        by (simp add: flood_inv_def inv_sound_drop inv_closed_drop)
      with unvisited True "2.IH"(2) show ?thesis
        by (simp add: flood_loop.simps)
    next
      case inb: False
      then have ins: "inside w h x y"
        by (auto simp: inside_def)
      let ?c = "px0 ! offset w x y"
      from sh pxs ins unvisited have cur: "getpixel w h px x y = Inr ?c"
        by (rule inv_pixels_current)
      show ?thesis
      proof (cases "alpha ?c = 0 \<or> \<not> color_matches tol ?c target")
        case True
        then have nf: "\<not> fillable w h tol target px0 (x, y)"
          by (auto simp: fillable_def)
        from sh ins have "inv_shape w h px0 px (insert (x, y) visited)"
          by (simp add: inv_shape_insert)
        with pxs snd cls cnt nf
        have inv': "flood_inv w h tol target px0 seed px (insert (x, y) visited) queue n"
          by (simp add: flood_inv_def inv_pixels_mark inv_sound_mark inv_closed_mark
              inv_count_mark)
        show ?thesis
        proof (cases "alpha ?c = 0")
          case True
          with unvisited inb cur inv' "2.IH"(3) [of ?c] show ?thesis
            by (simp add: flood_loop.simps)
        next
          case False
          with True have "\<not> color_matches tol ?c target"
            by simp
          with False unvisited inb cur inv' "2.IH"(4) [of ?c] show ?thesis
            by (simp add: flood_loop.simps)
        qed
      next
        case False
        with ins have f: "fillable w h tol target px0 (x, y)"
          by (simp add: fillable_def)
        let ?px' = "px[offset w x y := make_transparent ?c]"
        from sh ins have "offset w x y < length px"
          by (simp add: inv_shape_def offset_less)
        with ins have put: "putpixel w h px x y (make_transparent ?c) = Inr ?px'"
          by (simp add: putpixel_def)
        from sh ins have "inv_shape w h px0 ?px' (insert (x, y) visited)"
          by (simp add: inv_shape_insert)
        moreover from sh pxs ins f
        have "inv_pixels w h tol target px0 ?px' (insert (x, y) visited)"
          by (rule inv_pixels_fill)
        moreover from snd f
        have "inv_sound w h tol target px0 seed (insert (x, y) visited)
                (queue @ [(x + 1, y), (x - 1, y), (x, y + 1), (x, y - 1)])"
          by (rule inv_sound_fill)
        moreover from cls
        have "inv_closed w h tol target px0 seed (insert (x, y) visited)
                (queue @ [(x + 1, y), (x - 1, y), (x, y + 1), (x, y - 1)])"
          by (rule inv_closed_fill)
        moreover from cnt inv_shape_finite [OF sh] f unvisited
        have "inv_count w h tol target px0 (insert (x, y) visited) (n + 1)"
          by (rule inv_count_fill)
        ultimately have inv': "flood_inv w h tol target px0 seed ?px' (insert (x, y) visited)
            (queue @ [(x + 1, y), (x - 1, y), (x, y + 1), (x, y - 1)]) (n + 1)"
          by (simp add: flood_inv_def)
        from False unvisited inb cur put inv' "2.IH"(5) [of ?c ?px'] show ?thesis
          by (simp add: flood_loop.simps)
      qed
    qed
  qed
qed


lemma region_inside:
  "p \<in> region w h tol target px0 seed \<Longrightarrow> inside w h (fst p) (snd p)"
  by (drule region_fillable) (simp add: fillable_def case_prod_unfold)

lemma region_finite: "finite (region w h tol target px0 seed)"
proof (rule finite_subset)
  show "region w h tol target px0 seed \<subseteq> {0..<int w} \<times> {0..<int h}"
    using region_inside [of _ w h tol target px0 seed] by (auto simp: inside_def)
  show "finite ({0..<int w} \<times> {0..<int h})"
    by simp
qed

lemma flood_loop_region:
  assumes len: "length px0 = w * h"
  shows "\<exists>px'. flood_loop w h tol target px0 {} [seed] 0
             = Inr (px', card (region w h tol target px0 seed))
           \<and> length px' = length px0
           \<and> (\<forall>x y. inside w h x y \<longrightarrow>
                px' ! offset w x y =
                  (if (x, y) \<in> region w h tol target px0 seed
                   then make_transparent (px0 ! offset w x y) else px0 ! offset w x y))"
proof -
  from len have "flood_inv w h tol target px0 seed px0 {} [seed] 0"
    by (rule flood_inv_initial)
  then obtain px' visited' n'
    where run: "flood_loop w h tol target px0 {} [seed] 0 = Inr (px', n')"
      and inv: "flood_inv w h tol target px0 seed px' visited' [] n'"
    using flood_loop_invariant by blast
  from inv have reg: "{p \<in> visited'. fillable w h tol target px0 p} = region w h tol target px0 seed"
    by (rule flood_inv_final)
  then have mem: "(x, y) \<in> visited' \<and> fillable w h tol target px0 (x, y)
      \<longleftrightarrow> (x, y) \<in> region w h tol target px0 seed" for x y
    by blast
  from inv reg have "n' = card (region w h tol target px0 seed)"
    by (simp add: flood_inv_def inv_count_def)
  moreover from inv len have "length px' = length px0"
    by (simp add: flood_inv_def inv_shape_def)
  moreover from inv have "inv_pixels w h tol target px0 px' visited'"
    by (simp add: flood_inv_def)
  then have "\<forall>x y. inside w h x y \<longrightarrow>
      px' ! offset w x y =
        (if (x, y) \<in> region w h tol target px0 seed
         then make_transparent (px0 ! offset w x y) else px0 ! offset w x y)"
    unfolding inv_pixels_def mem .
  ultimately show ?thesis
    using run by blast
qed

lemma flood_loop_total:
  "length px = w * h \<Longrightarrow>
     \<exists>px' n'. flood_loop w h tol target px visited queue n = Inr (px', n') \<and> length px' = w * h"
proof (induction w h tol target px visited queue n rule: flood_loop.induct)
  case (1 w h tol target px visited n)
  then show ?case
    by (simp add: flood_loop.simps)
next
  case (2 w h tol target px visited x y queue n)
  show ?case
  proof (cases "(x, y) \<in> visited \<or> (x < 0 \<or> x \<ge> int w \<or> y < 0 \<or> y \<ge> int h)")
    case True
    with "2.IH"(1,2) "2.prems" show ?thesis
      by (auto simp: flood_loop.simps)
  next
    case False
    then have ins: "inside w h x y"
      by (auto simp: inside_def)
    with "2.prems" have lt: "offset w x y < length px"
      by (simp add: offset_less)
    with ins have get: "getpixel w h px x y = Inr (px ! offset w x y)"
      and put: "putpixel w h px x y c = Inr (px[offset w x y := c])" for c
      by (simp_all add: getpixel_def putpixel_def)
    from "2.prems" have len': "length (px[offset w x y := c]) = w * h" for c
      by simp
    from False get put len' "2.prems" "2.IH"(3,4) [of "px ! offset w x y"]
      "2.IH"(5) [of "px ! offset w x y" "px[offset w x y := make_transparent (px ! offset w x y)]"]
    show ?thesis
      by (cases "alpha (px ! offset w x y) = 0";
          cases "color_matches tol (px ! offset w x y) target")
        (simp_all add: flood_loop.simps)
  qed
qed


lemma flood_fill_transparent_RGBA:
  assumes p: "processed_image s = Some p" and im: "im (heap s p) = RGBA px0"
  shows "flood_fill_transparent s x y =
    (case getpixel (xsize (heap s p)) (ysize (heap s p)) px0 x y of
       Inl e \<Rightarrow> Inl e
     | Inr target_color \<Rightarrow>
         if alpha target_color = 0
         then Inr ((update_undo_button
                 ((save_edit_state s)\<lparr>edit_history := butlast (edit_history (save_edit_state s))\<rparr>))
                 \<lparr>status_label := Area_Is_Already_Transparent\<rparr>)
         else
           (case flood_loop (xsize (heap s p)) (ysize (heap s p)) (magic_wand_tolerance s)
                   target_color px0 {} [(x, y)] 0 of
              Inl e \<Rightarrow> Inl e
            | Inr (pixels', pixels_changed) \<Rightarrow>
                Inr ((save_edit_state s)
                      \<lparr>heap := (heap (save_edit_state s))(p := (heap s p)\<lparr>im := RGBA pixels'\<rparr>),
                        status_label := Removed_Pixels pixels_changed\<rparr>)))"
proof -
  have h: "heap (save_edit_state s) p = heap s p"
    using p by (simp add: save_edit_state_def update_undo_button_def Let_def)
  have t: "magic_wand_tolerance (save_edit_state s) = magic_wand_tolerance s"
    using p by (simp add: save_edit_state_def update_undo_button_def Let_def)
  have m: "mode (heap s p) = ''RGBA''"
    using im by (simp add: mode_def)
  show ?thesis
    using p im
    by (simp add: flood_fill_transparent_def Let_def h t m getdata_def putdata_def
        cong: sum.case_cong if_cong)
qed

text \<open>
  Claim C1.  Let the processed image be an RGBA image whose storage has one pixel per
  coordinate, and let the seed be inside the image with nonzero alpha.  Then
  \<open>flood_fill_transparent\<close> returns normally, the processed image is still the same
  object with the same size, and its pixels are as follows: a pixel of the region of the
  seed (the pixels reachable from the seed over 4-connected steps through pixels that are
  not transparent and match the seed colour within the tolerance in each channel) keeps
  its red, green and blue samples and has alpha 0; every other pixel, in particular every
  transparent or non-matching pixel at the border of the region, is unchanged.  The count
  the status label reports is the size of the region, which is the number of pixels whose
  alpha changed.  For a tolerance of at least 0 the seed itself belongs to the region.
\<close>

theorem flood_fill_transparent_region:
  assumes p: "processed_image s = Some p"
    and im: "im (heap s p) = RGBA px0"
    and wf: "wf_image (heap s p)"
    and ins: "inside (xsize (heap s p)) (ysize (heap s p)) x y"
    and opaque: "alpha (px0 ! offset (xsize (heap s p)) x y) \<noteq> 0"
  shows "\<exists>s' px'.
      flood_fill_transparent s x y = Inr s'
    \<and> processed_image s' = Some p
    \<and> heap s' p = (heap s p)\<lparr>im := RGBA px'\<rparr>
    \<and> length px' = length px0
    \<and> (\<forall>i j. inside (xsize (heap s p)) (ysize (heap s p)) i j \<longrightarrow>
          px' ! offset (xsize (heap s p)) i j =
            (case px0 ! offset (xsize (heap s p)) i j of (r, g, b, a) \<Rightarrow>
               if (i, j) \<in> region (xsize (heap s p)) (ysize (heap s p)) (magic_wand_tolerance s)
                             (px0 ! offset (xsize (heap s p)) x y) px0 (x, y)
               then (r, g, b, 0) else (r, g, b, a)))
    \<and> status_label s' = Removed_Pixels
         (card (region (xsize (heap s p)) (ysize (heap s p)) (magic_wand_tolerance s)
                  (px0 ! offset (xsize (heap s p)) x y) px0 (x, y)))
    \<and> card (region (xsize (heap s p)) (ysize (heap s p)) (magic_wand_tolerance s)
                  (px0 ! offset (xsize (heap s p)) x y) px0 (x, y))
        = card {(i, j). inside (xsize (heap s p)) (ysize (heap s p)) i j
                  \<and> alpha (px' ! offset (xsize (heap s p)) i j)
                      \<noteq> alpha (px0 ! offset (xsize (heap s p)) i j)}
    \<and> (0 \<le> magic_wand_tolerance s \<longrightarrow>
          (x, y) \<in> region (xsize (heap s p)) (ysize (heap s p)) (magic_wand_tolerance s)
                             (px0 ! offset (xsize (heap s p)) x y) px0 (x, y))"
proof -
  let ?w = "xsize (heap s p)" and ?h = "ysize (heap s p)" and ?tol = "magic_wand_tolerance s"
  let ?target = "px0 ! offset ?w x y"
  let ?R = "region ?w ?h ?tol ?target px0 (x, y)"
  from wf im have len: "length px0 = ?w * ?h"
    by (simp add: wf_image_def)
  with ins have get: "getpixel ?w ?h px0 x y = Inr ?target"
    by (simp add: getpixel_def offset_less)
  from flood_loop_region [OF len, of ?tol ?target "(x, y)"]
  obtain px' where run: "flood_loop ?w ?h ?tol ?target px0 {} [(x, y)] 0 = Inr (px', card ?R)"
    and len': "length px' = length px0"
    and pix: "\<forall>i j. inside ?w ?h i j \<longrightarrow>
        px' ! offset ?w i j =
          (if (i, j) \<in> ?R then make_transparent (px0 ! offset ?w i j) else px0 ! offset ?w i j)"
    by blast
  let ?s' = "(save_edit_state s)
      \<lparr>heap := (heap (save_edit_state s))(p := (heap s p)\<lparr>im := RGBA px'\<rparr>),
        status_label := Removed_Pixels (card ?R)\<rparr>"
  have res: "flood_fill_transparent s x y = Inr ?s'"
    using opaque by (simp add: flood_fill_transparent_RGBA [OF p im] get run)
  have proc: "processed_image ?s' = Some p"
    using p by (simp add: save_edit_state_def update_undo_button_def Let_def)
  have hp: "heap ?s' p = (heap s p)\<lparr>im := RGBA px'\<rparr>"
    by simp
  have st: "status_label ?s' = Removed_Pixels (card ?R)"
    by simp
  have pix': "\<forall>i j. inside ?w ?h i j \<longrightarrow>
      px' ! offset ?w i j =
        (case px0 ! offset ?w i j of (r, g, b, a) \<Rightarrow>
           if (i, j) \<in> ?R then (r, g, b, 0) else (r, g, b, a))"
    using pix by (simp add: make_transparent_def case_prod_unfold)
  have changed: "{(i, j). inside ?w ?h i j \<and> alpha (px' ! offset ?w i j) \<noteq> alpha (px0 ! offset ?w i j)} = ?R"
  proof (rule set_eqI)
    fix q :: "int \<times> int"
    obtain i j where q: "q = (i, j)"
      by (cases q)
    show "q \<in> {(i, j). inside ?w ?h i j \<and> alpha (px' ! offset ?w i j) \<noteq> alpha (px0 ! offset ?w i j)}
        \<longleftrightarrow> q \<in> ?R"
    proof (cases "(i, j) \<in> ?R")
      case True
      then have f: "fillable ?w ?h ?tol ?target px0 (i, j)"
        by (rule region_fillable)
      then have "inside ?w ?h i j" and "alpha (px0 ! offset ?w i j) \<noteq> 0"
        by (simp_all add: fillable_def)
      moreover with pix True have "alpha (px' ! offset ?w i j) = 0"
        by (simp add: make_transparent_def alpha_def case_prod_unfold)
      ultimately show ?thesis
        using True q by simp
    next
      case False
      with pix have "inside ?w ?h i j \<longrightarrow> px' ! offset ?w i j = px0 ! offset ?w i j"
        by simp
      with False q show ?thesis
        by auto
    qed
  qed
  have seed: "0 \<le> ?tol \<longrightarrow> (x, y) \<in> ?R"
  proof
    assume "0 \<le> ?tol"
    then have "color_matches ?tol ?target ?target"
      by (simp add: color_matches_def case_prod_unfold)
    with ins opaque have "fillable ?w ?h ?tol ?target px0 (x, y)"
      by (simp add: fillable_def)
    then show "(x, y) \<in> ?R"
      by (rule region.seed)
  qed
  from res proc hp len' pix' st changed seed show ?thesis
    by (intro exI [of _ ?s'] exI [of _ px']) simp
qed


lemma example_flood_loop:
  "flood_loop 3 1 32 (240, 240, 240, 255)
     [(240, 240, 240, 255), (235, 241, 239, 255), (150, 150, 150, 255)] {} [(0, 0)] 0
   = Inr ([(240, 240, 240, 0), (235, 241, 239, 0), (150, 150, 150, 255)], 2)"
  by (simp add: flood_loop.simps getpixel_def putpixel_def inside_def offset_def alpha_def
      color_matches_def make_transparent_def)

theorem flood_fill_transparent_region_witness:
  "\<exists>s'. flood_fill_transparent example_app 0 0 = Inr s'
      \<and> status_label s' = Removed_Pixels 2
      \<and> heap s' 0 = \<lparr>xsize = 3, ysize = 1,
           im = RGBA [(240, 240, 240, 0), (235, 241, 239, 0), (150, 150, 150, 255)]\<rparr>
      \<and> card (region 3 1 32 (240, 240, 240, 255)
           [(240, 240, 240, 255), (235, 241, 239, 255), (150, 150, 150, 255)] (0, 0)) = 2"
proof -
  let ?px0 = "[(240, 240, 240, 255), (235, 241, 239, 255), (150, 150, 150, 255)] :: rgba list"
  have p: "processed_image example_app = Some 0"
    and i: "im (heap example_app 0) = RGBA ?px0"
    and w: "wf_image (heap example_app 0)"
    and ins: "inside (xsize (heap example_app 0)) (ysize (heap example_app 0)) 0 0"
    and a: "alpha (?px0 ! offset (xsize (heap example_app 0)) 0 0) \<noteq> 0"
    by (simp_all add: example_app_def example_image_def wf_image_def inside_def offset_def
        alpha_def)
  from flood_fill_transparent_region [OF p i w ins a]
  obtain s' px' where r: "flood_fill_transparent example_app 0 0 = Inr s'"
    and st: "status_label s' = Removed_Pixels
         (card (region 3 1 32 (240, 240, 240, 255) ?px0 (0, 0)))"
    by (auto simp: example_app_def example_image_def offset_def)
  have xs: "heap example_app 0 = example_image" "xsize example_image = 3"
      "ysize example_image = 1" "magic_wand_tolerance example_app = 32"
    by (simp_all add: example_app_def example_image_def)
  have g: "getpixel 3 1 ?px0 0 0 = Inr (240, 240, 240, 255)"
    by (simp add: getpixel_def inside_def offset_def)
  have e: "flood_fill_transparent example_app 0 0 =
      Inr ((save_edit_state example_app)
            \<lparr>heap := (heap (save_edit_state example_app))
               (0 := example_image\<lparr>im := RGBA [(240, 240, 240, 0), (235, 241, 239, 0), (150, 150, 150, 255)]\<rparr>),
             status_label := Removed_Pixels 2\<rparr>)"
    unfolding flood_fill_transparent_RGBA [OF p i] xs g
    using example_flood_loop by (simp add: alpha_def)
  from r e have s': "s' = (save_edit_state example_app)
            \<lparr>heap := (heap (save_edit_state example_app))
               (0 := example_image\<lparr>im := RGBA [(240, 240, 240, 0), (235, 241, 239, 0), (150, 150, 150, 255)]\<rparr>),
             status_label := Removed_Pixels 2\<rparr>"
    by simp
  from st have "card (region 3 1 32 (240, 240, 240, 255) ?px0 (0, 0)) = 2"
    unfolding s' by simp
  moreover have "status_label s' = Removed_Pixels 2"
    unfolding s' by simp
  moreover have "heap s' 0 = \<lparr>xsize = 3, ysize = 1,
           im = RGBA [(240, 240, 240, 0), (235, 241, 239, 0), (150, 150, 150, 255)]\<rparr>"
    unfolding s' by (simp add: example_image_def)
  ultimately show ?thesis
    using r by simp
qed


section \<open>Undo history and the store\<close>

lemma save_edit_state_Some:
  assumes "processed_image s = Some p"
  shows "save_edit_state s =
    s\<lparr>heap := (heap s)(next_ref s := heap s p),
      next_ref := Suc (next_ref s),
      edit_history := (if max_history \<le> length (edit_history s)
                       then tl (edit_history s) else edit_history s) @ [next_ref s],
      undo_label := Suc (length (if max_history \<le> length (edit_history s)
                       then tl (edit_history s) else edit_history s))\<rparr>"
  using assms by (simp add: save_edit_state_def update_undo_button_def Let_def)

lemma save_edit_state_None: "processed_image s = None \<Longrightarrow> save_edit_state s = s"
  by (simp add: save_edit_state_def)

lemma save_edit_state_heap_old:
  "processed_image s = Some p \<Longrightarrow> heap (save_edit_state s) p = heap s p"
  by (simp add: save_edit_state_Some)

lemma getdata_convert_RGBA: "getdata (convert_RGBA img) = rgba_of (im img)"
  by (simp add: getdata_def convert_RGBA_def)

lemma flood_fill_transparent_unfold:
  assumes p0: "processed_image s = Some p0"
  shows "flood_fill_transparent s x y =
    (case getpixel (xsize (heap s p0)) (ysize (heap s p0)) (rgba_of (im (heap s p0))) x y of
       Inl e \<Rightarrow> Inl e
     | Inr target_color \<Rightarrow>
         if alpha target_color = 0
         then Inr ((if mode (heap s p0) \<noteq> ''RGBA''
                    then (save_edit_state s)
                      \<lparr>heap := (heap (save_edit_state s))
                          (Suc (next_ref s) := convert_RGBA (heap s p0)),
                        next_ref := Suc (Suc (next_ref s)),
                        processed_image := Some (Suc (next_ref s)),
                        edit_history := butlast (edit_history (save_edit_state s)),
                        undo_label := length (butlast (edit_history (save_edit_state s))),
                        status_label := Area_Is_Already_Transparent\<rparr>
                    else (save_edit_state s)
                      \<lparr>edit_history := butlast (edit_history (save_edit_state s)),
                        undo_label := length (butlast (edit_history (save_edit_state s))),
                        status_label := Area_Is_Already_Transparent\<rparr>))
         else
           (case flood_loop (xsize (heap s p0)) (ysize (heap s p0)) (magic_wand_tolerance s)
                   target_color (rgba_of (im (heap s p0))) {} [(x, y)] 0 of
              Inl e \<Rightarrow> Inl e
            | Inr (pixels', pixels_changed) \<Rightarrow>
                Inr (if mode (heap s p0) \<noteq> ''RGBA''
                     then (save_edit_state s)
                       \<lparr>heap := (heap (save_edit_state s))
                           (Suc (next_ref s) := (heap s p0)\<lparr>im := RGBA pixels'\<rparr>),
                         next_ref := Suc (Suc (next_ref s)),
                         processed_image := Some (Suc (next_ref s)),
                         status_label := Removed_Pixels pixels_changed\<rparr>
                     else (save_edit_state s)
                       \<lparr>heap := (heap (save_edit_state s))
                           (p0 := (heap s p0)\<lparr>im := RGBA pixels'\<rparr>),
                         status_label := Removed_Pixels pixels_changed\<rparr>)))"
proof -
  have h: "heap (save_edit_state s) p0 = heap s p0"
    using p0 by (rule save_edit_state_heap_old)
  have t: "magic_wand_tolerance (save_edit_state s) = magic_wand_tolerance s"
    and n: "next_ref (save_edit_state s) = Suc (next_ref s)"
    using p0 by (simp_all add: save_edit_state_Some)
  show ?thesis
  proof (cases "mode (heap s p0) = ''RGBA''")
    case True
    then show ?thesis
      using p0
      by (simp add: flood_fill_transparent_def Let_def h t getdata_def putdata_def
          update_undo_button_def split: sum.splits prod.splits)
  next
    case False
    then show ?thesis
      using p0
      by (simp add: flood_fill_transparent_def Let_def h t n getdata_def putdata_def
          convert_RGBA_def update_undo_button_def split: sum.splits prod.splits)
  qed
qed


lemma rgba_of_length: "length (rgba_of d) = npixels d"
  by (cases d) simp_all

lemma flood_fill_transparent_returns:
  assumes p0: "processed_image s = Some p0"
    and wf: "wf_image (heap s p0)"
    and ins: "inside (xsize (heap s p0)) (ysize (heap s p0)) x y"
  shows "\<exists>s'. flood_fill_transparent s x y = Inr s'"
proof -
  let ?w = "xsize (heap s p0)" and ?h = "ysize (heap s p0)"
  let ?px = "rgba_of (im (heap s p0))"
  from wf have len: "length ?px = ?w * ?h"
    by (simp add: wf_image_def rgba_of_length)
  with ins have get: "getpixel ?w ?h ?px x y = Inr (?px ! offset ?w x y)"
    by (simp add: getpixel_def offset_less)
  from flood_loop_total [OF len]
  obtain px' n' where "flood_loop ?w ?h (magic_wand_tolerance s) (?px ! offset ?w x y)
      ?px {} [(x, y)] 0 = Inr (px', n')"
    by blast
  with get show ?thesis
    by (simp add: flood_fill_transparent_unfold [OF p0])
qed

text \<open>
  Claim C10.  The loop never accesses a pixel outside the image.  For a storage with one
  pixel per coordinate the loop returns normally from every state, whatever coordinates
  the queue holds, and an access outside the image is the only way the model can fail.
  A dequeued coordinate that is outside the image, or already visited, is dropped without
  any pixel read or write: the loop goes on with the rest of the queue and the same
  storage, visited set and counter.  When the dequeued pixel is inside, unvisited, not
  transparent and matching, its four neighbours are appended to the queue as they are,
  with no bounds check.  On the application level, a flood fill from a seed inside a
  well-formed processed image (RGB or RGBA) returns normally.
\<close>

theorem flood_fill_no_out_of_bounds_access:
  "(length px = w * h \<longrightarrow>
      (\<exists>px' n'. flood_loop w h tol target px visited queue n = Inr (px', n')))
   \<and> (\<not> inside w h x y \<longrightarrow>
        flood_loop w h tol target px visited ((x, y) # queue) n
          = flood_loop w h tol target px visited queue n)
   \<and> ((x, y) \<in> visited \<longrightarrow>
        flood_loop w h tol target px visited ((x, y) # queue) n
          = flood_loop w h tol target px visited queue n)
   \<and> (length px = w * h \<and> inside w h x y \<and> (x, y) \<notin> visited
        \<and> alpha (px ! offset w x y) \<noteq> 0 \<and> color_matches tol (px ! offset w x y) target \<longrightarrow>
        flood_loop w h tol target px visited ((x, y) # queue) n
          = flood_loop w h tol target (px[offset w x y := make_transparent (px ! offset w x y)])
              (insert (x, y) visited)
              (queue @ [(x + 1, y), (x - 1, y), (x, y + 1), (x, y - 1)]) (n + 1))
   \<and> (processed_image s = Some p \<and> wf_image (heap s p)
        \<and> inside (xsize (heap s p)) (ysize (heap s p)) x y \<longrightarrow>
        (\<exists>s'. flood_fill_transparent s x y = Inr s'))"
proof (intro conjI impI)
  assume "length px = w * h"
  then show "\<exists>px' n'. flood_loop w h tol target px visited queue n = Inr (px', n')"
    using flood_loop_total by blast
next
  assume "\<not> inside w h x y"
  then show "flood_loop w h tol target px visited ((x, y) # queue) n
      = flood_loop w h tol target px visited queue n"
    by (auto simp: flood_loop.simps inside_def)
next
  assume "(x, y) \<in> visited"
  then show "flood_loop w h tol target px visited ((x, y) # queue) n
      = flood_loop w h tol target px visited queue n"
    by (simp add: flood_loop.simps)
next
  assume a: "length px = w * h \<and> inside w h x y \<and> (x, y) \<notin> visited
      \<and> alpha (px ! offset w x y) \<noteq> 0 \<and> color_matches tol (px ! offset w x y) target"
  then have "offset w x y < length px"
    by (simp add: offset_less)
  with a have "getpixel w h px x y = Inr (px ! offset w x y)"
    and "putpixel w h px x y c = Inr (px[offset w x y := c])" for c
    by (simp_all add: getpixel_def putpixel_def)
  moreover from a have "\<not> (x < 0 \<or> x \<ge> int w \<or> y < 0 \<or> y \<ge> int h)"
    by (auto simp: inside_def)
  ultimately show "flood_loop w h tol target px visited ((x, y) # queue) n
      = flood_loop w h tol target (px[offset w x y := make_transparent (px ! offset w x y)])
          (insert (x, y) visited)
          (queue @ [(x + 1, y), (x - 1, y), (x, y + 1), (x, y - 1)]) (n + 1)"
    using a by (simp add: flood_loop.simps)
next
  assume "processed_image s = Some p \<and> wf_image (heap s p)
      \<and> inside (xsize (heap s p)) (ysize (heap s p)) x y"
  then show "\<exists>s'. flood_fill_transparent s x y = Inr s'"
    using flood_fill_transparent_returns by blast
qed

theorem flood_fill_no_out_of_bounds_access_witness:
  "(\<exists>px' n'. flood_loop 3 1 32 (240, 240, 240, 255)
       [(240, 240, 240, 255), (235, 241, 239, 255), (150, 150, 150, 255)]
       {} [(0, 0), (-1, 0), (3, 0), (0, 1)] 0 = Inr (px', n'))
   \<and> flood_loop 3 1 32 (240, 240, 240, 255)
       [(240, 240, 240, 255), (235, 241, 239, 255), (150, 150, 150, 255)]
       {} [(-1, 0), (0, 0)] 0
     = flood_loop 3 1 32 (240, 240, 240, 255)
       [(240, 240, 240, 255), (235, 241, 239, 255), (150, 150, 150, 255)]
       {} [(0, 0)] 0
   \<and> flood_loop 3 1 32 (240, 240, 240, 255)
       [(240, 240, 240, 255), (235, 241, 239, 255), (150, 150, 150, 255)]
       {(0, 0)} [(0, 0)] 0
     = flood_loop 3 1 32 (240, 240, 240, 255)
       [(240, 240, 240, 255), (235, 241, 239, 255), (150, 150, 150, 255)]
       {(0, 0)} [] 0
   \<and> flood_loop 3 1 32 (240, 240, 240, 255)
       [(240, 240, 240, 255), (235, 241, 239, 255), (150, 150, 150, 255)]
       {} [(0, 0)] 0
     = flood_loop 3 1 32 (240, 240, 240, 255)
       [(240, 240, 240, 0), (235, 241, 239, 255), (150, 150, 150, 255)]
       {(0, 0)} [(1, 0), (-1, 0), (0, 1), (0, -1)] 1
   \<and> (\<exists>s'. flood_fill_transparent example_app 2 0 = Inr s')"
proof -
  let ?px = "[(240, 240, 240, 255), (235, 241, 239, 255), (150, 150, 150, 255)] :: rgba list"
  note t = flood_fill_no_out_of_bounds_access
  have 1: "length ?px = 3 * 1"
    by simp
  have 2: "\<not> inside 3 1 (-1) 0"
    by (simp add: inside_def)
  have 3: "(0, 0) \<in> {(0 :: int, 0 :: int)}"
    by simp
  have 4: "length ?px = 3 * 1 \<and> inside 3 1 0 0 \<and> (0, 0) \<notin> ({} :: (int \<times> int) set)
      \<and> alpha (?px ! offset 3 0 0) \<noteq> 0 \<and> color_matches 32 (?px ! offset 3 0 0) (240, 240, 240, 255)"
    by (simp add: inside_def offset_def alpha_def color_matches_def)
  have 5: "processed_image example_app = Some 0 \<and> wf_image (heap example_app 0)
      \<and> inside (xsize (heap example_app 0)) (ysize (heap example_app 0)) 2 0"
    by (simp add: example_app_def example_image_def wf_image_def inside_def)
  from 1 t [of ?px 3 1 32 "(240, 240, 240, 255)" "{}" "[(0, 0), (-1, 0), (3, 0), (0, 1)]" 0]
  have a: "\<exists>px' n'. flood_loop 3 1 32 (240, 240, 240, 255) ?px
       {} [(0, 0), (-1, 0), (3, 0), (0, 1)] 0 = Inr (px', n')"
    by blast
  from 2 t [of ?px 3 1 _ _ _ _ _ "-1" 0]
  have b: "flood_loop 3 1 32 (240, 240, 240, 255) ?px {} [(-1, 0), (0, 0)] 0
      = flood_loop 3 1 32 (240, 240, 240, 255) ?px {} [(0, 0)] 0"
    by blast
  from 3 t [of ?px 3 1 _ _ "{(0, 0)}" _ _ 0 0]
  have c: "flood_loop 3 1 32 (240, 240, 240, 255) ?px {(0, 0)} [(0, 0)] 0
      = flood_loop 3 1 32 (240, 240, 240, 255) ?px {(0, 0)} [] 0"
    by blast
  from 4 t [of ?px 3 1 32 "(240, 240, 240, 255)" "{}" "[]" 0 0 0]
  have d: "flood_loop 3 1 32 (240, 240, 240, 255) ?px {} [(0, 0)] 0
      = flood_loop 3 1 32 (240, 240, 240, 255)
       [(240, 240, 240, 0), (235, 241, 239, 255), (150, 150, 150, 255)]
       {(0, 0)} [(1, 0), (-1, 0), (0, 1), (0, -1)] 1"
    by (simp add: offset_def make_transparent_def)
  from 5 t [of _ _ _ _ _ _ _ _ 2 0 example_app 0]
  have e: "\<exists>s'. flood_fill_transparent example_app 2 0 = Inr s'"
    by blast
  from a b c d e show ?thesis
    by blast
qed


lemma edit_history_save_edit_state:
  "processed_image s = Some p \<Longrightarrow>
     edit_history (save_edit_state s) =
       (if max_history \<le> length (edit_history s) then tl (edit_history s) else edit_history s)
         @ [next_ref s]"
  by (simp add: save_edit_state_Some)

text \<open>
  Claim C5.  In a state whose references are below the allocation pointer, let the seed
  be inside the processed image and not transparent, so that the flood fill keeps the
  snapshot it pushed.  Then the flood fill returns normally; the snapshot on top of the
  history is an object different from the live processed image and still holds the image
  as it was before the call; and \<open>undo_edit\<close> makes that object the processed image,
  which therefore equals the image before the flood fill in size, colour mode and every
  pixel.  This holds for an RGBA image (mutated in place) and for an RGB image (replaced
  by its RGBA conversion before the fill).
\<close>

theorem undo_restores_flood_fill:
  assumes p: "processed_image s = Some p"
    and store: "wf_app s"
    and wf: "wf_image (heap s p)"
    and ins: "inside (xsize (heap s p)) (ysize (heap s p)) x y"
    and opaque: "alpha (rgba_of (im (heap s p)) ! offset (xsize (heap s p)) x y) \<noteq> 0"
  shows "\<exists>s1 live snapshot.
      flood_fill_transparent s x y = Inr s1
    \<and> processed_image s1 = Some live
    \<and> edit_history s1 \<noteq> [] \<and> last (edit_history s1) = snapshot
    \<and> snapshot \<noteq> live
    \<and> heap s1 snapshot = heap s p
    \<and> processed_image (undo_edit s1) = Some snapshot
    \<and> heap (undo_edit s1) snapshot = heap s p
    \<and> mode (heap (undo_edit s1) snapshot) = mode (heap s p)"
proof -
  let ?w = "xsize (heap s p)" and ?h = "ysize (heap s p)"
  let ?px = "rgba_of (im (heap s p))"
  let ?s0 = "save_edit_state s"
  from wf have len: "length ?px = ?w * ?h"
    by (simp add: wf_image_def rgba_of_length)
  with ins have get: "getpixel ?w ?h ?px x y = Inr (?px ! offset ?w x y)"
    by (simp add: getpixel_def offset_less)
  from flood_loop_total [OF len]
  obtain px' n' where run: "flood_loop ?w ?h (magic_wand_tolerance s) (?px ! offset ?w x y)
      ?px {} [(x, y)] 0 = Inr (px', n')"
    by blast
  have hist: "edit_history ?s0 \<noteq> []" "last (edit_history ?s0) = next_ref s"
    using p by (simp_all add: edit_history_save_edit_state)
  have snap: "heap ?s0 (next_ref s) = heap s p"
    using p by (simp add: save_edit_state_Some)
  have proc: "processed_image ?s0 = Some p"
    using p by (simp add: save_edit_state_Some)
  show ?thesis
  proof (cases "mode (heap s p) = ''RGBA''")
    case True
    let ?s1 = "?s0\<lparr>heap := (heap ?s0)(p := (heap s p)\<lparr>im := RGBA px'\<rparr>),
        status_label := Removed_Pixels n'\<rparr>"
    from True opaque get run have res: "flood_fill_transparent s x y = Inr ?s1"
      by (simp add: flood_fill_transparent_unfold [OF p])
    from store p have ne: "next_ref s \<noteq> p"
      by (auto simp: wf_app_def)
    have "processed_image ?s1 = Some p"
      using proc by simp
    moreover have "edit_history ?s1 \<noteq> []" "last (edit_history ?s1) = next_ref s"
      using hist by simp_all
    moreover have "heap ?s1 (next_ref s) = heap s p"
      using snap ne by simp
    moreover have "processed_image (undo_edit ?s1) = Some (next_ref s)"
      using hist by (simp add: undo_edit_def update_undo_button_def)
    moreover have "heap (undo_edit ?s1) (next_ref s) = heap s p"
      using hist snap ne by (simp add: undo_edit_def update_undo_button_def)
    ultimately show ?thesis
      using res ne by (intro exI [of _ ?s1] exI [of _ p] exI [of _ "next_ref s"]) simp
  next
    case False
    let ?s1 = "?s0\<lparr>heap := (heap ?s0)(Suc (next_ref s) := (heap s p)\<lparr>im := RGBA px'\<rparr>),
        next_ref := Suc (Suc (next_ref s)),
        processed_image := Some (Suc (next_ref s)),
        status_label := Removed_Pixels n'\<rparr>"
    from False opaque get run have res: "flood_fill_transparent s x y = Inr ?s1"
      by (simp add: flood_fill_transparent_unfold [OF p])
    have "processed_image ?s1 = Some (Suc (next_ref s))"
      by simp
    moreover have "edit_history ?s1 \<noteq> []" "last (edit_history ?s1) = next_ref s"
      using hist by simp_all
    moreover have "heap ?s1 (next_ref s) = heap s p"
      using snap by simp
    moreover have "processed_image (undo_edit ?s1) = Some (next_ref s)"
      using hist by (simp add: undo_edit_def update_undo_button_def)
    moreover have "heap (undo_edit ?s1) (next_ref s) = heap s p"
      using hist snap by (simp add: undo_edit_def update_undo_button_def)
    ultimately show ?thesis
      using res
      by (intro exI [of _ ?s1] exI [of _ "Suc (next_ref s)"] exI [of _ "next_ref s"]) simp
  qed
qed


lemma flood_fill_already_transparent:
  assumes p: "processed_image s = Some p"
    and im: "im (heap s p) = RGBA px0"
    and wf: "wf_image (heap s p)"
    and ins: "inside (xsize (heap s p)) (ysize (heap s p)) x y"
    and transparent: "alpha (px0 ! offset (xsize (heap s p)) x y) = 0"
  shows "flood_fill_transparent s x y =
    Inr (s\<lparr>heap := (heap s)(next_ref s := heap s p),
           next_ref := Suc (next_ref s),
           edit_history := (if max_history \<le> length (edit_history s)
                            then tl (edit_history s) else edit_history s),
           undo_label := length (if max_history \<le> length (edit_history s)
                            then tl (edit_history s) else edit_history s),
           status_label := Area_Is_Already_Transparent\<rparr>)"
proof -
  from wf im have len: "length px0 = xsize (heap s p) * ysize (heap s p)"
    by (simp add: wf_image_def)
  with ins have get: "getpixel (xsize (heap s p)) (ysize (heap s p)) px0 x y
      = Inr (px0 ! offset (xsize (heap s p)) x y)"
    by (simp add: getpixel_def offset_less)
  from im have m: "mode (heap s p) = ''RGBA''"
    by (simp add: mode_def)
  show ?thesis
    using transparent
    by (simp add: flood_fill_transparent_unfold [OF p] im get m save_edit_state_Some [OF p])
qed

text \<open>
  Claim C3.  For a seed whose pixel is already transparent the flood fill changes no
  pixel and reports that the area is already transparent, but it does not leave a full
  history as it was: \<open>save_edit_state\<close> has evicted the oldest snapshot before the
  push, and only the pushed snapshot is removed again.  With 20 snapshots before the
  call, 19 remain after it, and the first one is gone.
\<close>

theorem flood_fill_transparent_seed_full_history:
  "length (edit_history full_history_app) = 20
   \<and> (\<exists>s'. flood_fill_transparent full_history_app 0 0 = Inr s'
         \<and> status_label s' = Area_Is_Already_Transparent
         \<and> heap s' 0 = heap full_history_app 0
         \<and> edit_history s' = tl (edit_history full_history_app)
         \<and> length (edit_history s') = 19
         \<and> edit_history s' \<noteq> edit_history full_history_app
         \<and> hd (edit_history full_history_app) \<notin> set (edit_history s'))"
proof -
  have p: "processed_image full_history_app = Some 0"
    and i: "im (heap full_history_app 0) = RGBA [(10, 20, 30, 0), (200, 200, 200, 255)]"
    and w: "wf_image (heap full_history_app 0)"
    and ins: "inside (xsize (heap full_history_app 0)) (ysize (heap full_history_app 0)) 0 0"
    and a: "alpha ([(10, 20, 30, 0), (200, 200, 200, 255)]
              ! offset (xsize (heap full_history_app 0)) 0 0) = 0"
    and l: "length (edit_history full_history_app) = 20"
    by (simp_all add: full_history_app_def example_app_def transparent_image_def wf_image_def
        inside_def offset_def alpha_def)
  have ne: "tl (edit_history full_history_app) \<noteq> edit_history full_history_app"
  proof
    assume "tl (edit_history full_history_app) = edit_history full_history_app"
    then have "length (tl (edit_history full_history_app)) = length (edit_history full_history_app)"
      by simp
    with l show False
      by simp
  qed
  show ?thesis
    unfolding flood_fill_already_transparent [OF p i w ins a]
    using l ne by (simp add: max_history_def) (simp add: full_history_app_def)
qed


lemma save_edit_state_funpow:
  assumes p: "processed_image s = Some p" and e: "edit_history s = []"
  shows "processed_image ((save_edit_state ^^ n) s) = Some p
    \<and> next_ref ((save_edit_state ^^ n) s) = next_ref s + n
    \<and> edit_history ((save_edit_state ^^ n) s) = [next_ref s + (n - 20) ..< next_ref s + n]"
proof (induction n)
  case 0
  from p e show ?case
    by simp
next
  case (Suc n)
  let ?t = "(save_edit_state ^^ n) s"
  from Suc have pt: "processed_image ?t = Some p"
    and nt: "next_ref ?t = next_ref s + n"
    and ht: "edit_history ?t = [next_ref s + (n - 20) ..< next_ref s + n]"
    by simp_all
  have "processed_image (save_edit_state ?t) = Some p"
    and "next_ref (save_edit_state ?t) = next_ref s + Suc n"
    using pt nt by (simp_all add: save_edit_state_Some)
  moreover have "edit_history (save_edit_state ?t) = [next_ref s + (Suc n - 20) ..< next_ref s + Suc n]"
  proof (cases "20 \<le> n")
    case True
    then have "next_ref s + (Suc n - 20) = Suc (next_ref s + (n - 20))"
      by simp
    with True show ?thesis
      using pt nt ht by (simp add: edit_history_save_edit_state max_history_def)
  next
    case False
    then show ?thesis
      using pt nt ht by (simp add: edit_history_save_edit_state max_history_def)
  qed
  ultimately show ?case
    by simp
qed

text \<open>
  Claim C4.  A history of at most 20 snapshots has at most 20 after \<open>save_edit_state\<close>,
  after \<open>undo_edit\<close> and after a flood fill.  A push onto 20 snapshots drops the first (oldest) one and
  appends the new snapshot, a copy of the processed image; a push onto fewer appends
  only.  Starting from an empty history, 20 pushes leave the 20 pushed snapshots in
  order, and the 21st push leaves the snapshots 2 to 21: the first one ever pushed is
  removed, the most recent one is kept.  \<open>undo_edit\<close> on a nonempty history makes the
  last snapshot the processed image and removes it from the history; right after a push
  it returns exactly the snapshot just pushed.
\<close>

theorem history_bounded_fifo_lifo:
  "(length (edit_history s) \<le> 20 \<longrightarrow> length (edit_history (save_edit_state s)) \<le> 20)
   \<and> (length (edit_history s) \<le> 20 \<longrightarrow> length (edit_history (undo_edit s)) \<le> 20)
   \<and> (length (edit_history s) \<le> 20 \<and> flood_fill_transparent s x y = Inr s' \<longrightarrow>
        length (edit_history s') \<le> 20)
   \<and> (processed_image s = Some p \<and> length (edit_history s) = 20 \<longrightarrow>
        edit_history (save_edit_state s) = tl (edit_history s) @ [next_ref s]
        \<and> heap (save_edit_state s) (next_ref s) = heap s p)
   \<and> (processed_image s = Some p \<and> length (edit_history s) < 20 \<longrightarrow>
        edit_history (save_edit_state s) = edit_history s @ [next_ref s]
        \<and> heap (save_edit_state s) (next_ref s) = heap s p)
   \<and> (processed_image s = Some p \<and> edit_history s = [] \<longrightarrow>
        (\<forall>n. length (edit_history ((save_edit_state ^^ n) s)) \<le> 20)
        \<and> edit_history ((save_edit_state ^^ 20) s) = [next_ref s ..< next_ref s + 20]
        \<and> edit_history ((save_edit_state ^^ 21) s) = [next_ref s + 1 ..< next_ref s + 21])
   \<and> (edit_history s \<noteq> [] \<longrightarrow>
        processed_image (undo_edit s) = Some (last (edit_history s))
        \<and> edit_history (undo_edit s) = butlast (edit_history s))
   \<and> (processed_image s = Some p \<longrightarrow>
        processed_image (undo_edit (save_edit_state s)) = Some (next_ref s)
        \<and> heap (undo_edit (save_edit_state s)) (next_ref s) = heap s p
        \<and> edit_history (undo_edit (save_edit_state s))
            = (if 20 \<le> length (edit_history s) then tl (edit_history s) else edit_history s))"
proof (intro conjI impI)
  assume "length (edit_history s) \<le> 20"
  then show "length (edit_history (save_edit_state s)) \<le> 20"
    by (cases "processed_image s")
      (auto simp: save_edit_state_None edit_history_save_edit_state max_history_def)
next
  assume "length (edit_history s) \<le> 20"
  then show "length (edit_history (undo_edit s)) \<le> 20"
    by (auto simp: undo_edit_def update_undo_button_def)
next
  assume a: "length (edit_history s) \<le> 20 \<and> flood_fill_transparent s x y = Inr s'"
  show "length (edit_history s') \<le> 20"
  proof (cases "processed_image s")
    case None
    with a show ?thesis
      by (auto simp: flood_fill_transparent_def)
  next
    case (Some q)
    from a have "length (edit_history (save_edit_state s)) \<le> 20"
      by (auto simp: edit_history_save_edit_state [OF Some] max_history_def)
    with a show ?thesis
      unfolding flood_fill_transparent_unfold [OF Some]
      by (auto split: sum.splits if_splits prod.splits)
  qed
next
  assume a: "processed_image s = Some p \<and> length (edit_history s) = 20"
  then show "edit_history (save_edit_state s) = tl (edit_history s) @ [next_ref s]"
    by (simp add: edit_history_save_edit_state max_history_def)
  from a show "heap (save_edit_state s) (next_ref s) = heap s p"
    by (simp add: save_edit_state_Some)
next
  assume a: "processed_image s = Some p \<and> length (edit_history s) < 20"
  then show "edit_history (save_edit_state s) = edit_history s @ [next_ref s]"
    by (simp add: edit_history_save_edit_state max_history_def)
  from a show "heap (save_edit_state s) (next_ref s) = heap s p"
    by (simp add: save_edit_state_Some)
next
  assume a: "processed_image s = Some p \<and> edit_history s = []"
  then have f: "edit_history ((save_edit_state ^^ n) s) = [next_ref s + (n - 20) ..< next_ref s + n]"
    for n
    using save_edit_state_funpow [of s p n] by simp
  show "\<forall>n. length (edit_history ((save_edit_state ^^ n) s)) \<le> 20"
    by (auto simp: f)
  show "edit_history ((save_edit_state ^^ 20) s) = [next_ref s ..< next_ref s + 20]"
    by (simp add: f)
  show "edit_history ((save_edit_state ^^ 21) s) = [next_ref s + 1 ..< next_ref s + 21]"
    by (simp add: f)
next
  assume a: "edit_history s \<noteq> []"
  then show "processed_image (undo_edit s) = Some (last (edit_history s))"
    and "edit_history (undo_edit s) = butlast (edit_history s)"
    by (simp_all add: undo_edit_def update_undo_button_def)
next
  assume a: "processed_image s = Some p"
  then show "processed_image (undo_edit (save_edit_state s)) = Some (next_ref s)"
    and "heap (undo_edit (save_edit_state s)) (next_ref s) = heap s p"
    and "edit_history (undo_edit (save_edit_state s))
            = (if 20 \<le> length (edit_history s) then tl (edit_history s) else edit_history s)"
    by (simp_all add: undo_edit_def update_undo_button_def save_edit_state_Some max_history_def)
qed


lemma set_tl_subset: "x \<in> set (tl xs) \<Longrightarrow> x \<in> set xs"
  by (cases xs) simp_all

lemma wf_app_save_edit_state: "wf_app s \<Longrightarrow> wf_app (save_edit_state s)"
proof (cases "processed_image s")
  case None
  assume "wf_app s"
  with None show ?thesis
    by (simp add: save_edit_state_None)
next
  case (Some p)
  assume "wf_app s"
  with Some show ?thesis
    by (auto simp: wf_app_def save_edit_state_Some less_Suc_eq dest: set_tl_subset)
qed

lemma wf_app_undo_edit: "wf_app s \<Longrightarrow> wf_app (undo_edit s)"
  by (auto simp: wf_app_def undo_edit_def update_undo_button_def dest: in_set_butlastD)

lemma wf_app_flood_fill_transparent:
  assumes "wf_app s" and "flood_fill_transparent s x y = Inr s'"
  shows "wf_app s'"
proof (cases "processed_image s")
  case None
  with assms show ?thesis
    by (simp add: flood_fill_transparent_def)
next
  case (Some p)
  from assms(1) have w: "wf_app (save_edit_state s)"
    by (rule wf_app_save_edit_state)
  have n: "next_ref (save_edit_state s) = Suc (next_ref s)"
    and q: "processed_image (save_edit_state s) = Some p"
    using Some by (simp_all add: save_edit_state_Some)
  from w n q have a: "p < Suc (next_ref s)"
    and b: "\<forall>r \<in> set (edit_history (save_edit_state s)). r < Suc (Suc (next_ref s))"
    and b': "\<forall>r \<in> set (edit_history (save_edit_state s)). r < Suc (next_ref s)"
    by (auto simp: wf_app_def)
  from b b' have c: "\<forall>r \<in> set (butlast (edit_history (save_edit_state s))). r < Suc (Suc (next_ref s))"
    and c': "\<forall>r \<in> set (butlast (edit_history (save_edit_state s))). r < Suc (next_ref s)"
    by (auto dest: in_set_butlastD)
  from assms(2) a b b' c c' n q show ?thesis
    unfolding flood_fill_transparent_unfold [OF Some]
    by (auto simp: wf_app_def split: sum.splits if_splits prod.splits)
qed

theorem undo_restores_flood_fill_witness:
  "\<exists>s1 live snapshot.
      flood_fill_transparent example_app 0 0 = Inr s1
    \<and> processed_image s1 = Some live
    \<and> snapshot \<noteq> live
    \<and> heap s1 snapshot = example_image
    \<and> processed_image (undo_edit s1) = Some snapshot
    \<and> heap (undo_edit s1) snapshot = example_image"
proof -
  have p: "processed_image example_app = Some 0"
    and st: "wf_app example_app"
    and w: "wf_image (heap example_app 0)"
    and ins: "inside (xsize (heap example_app 0)) (ysize (heap example_app 0)) 0 0"
    and a: "alpha (rgba_of (im (heap example_app 0)) ! offset (xsize (heap example_app 0)) 0 0) \<noteq> 0"
    and h: "heap example_app 0 = example_image"
    by (simp_all add: example_app_def example_image_def wf_image_def wf_app_def inside_def
        offset_def alpha_def)
  from undo_restores_flood_fill [OF p st w ins a] show ?thesis
    unfolding h by blast
qed

theorem history_bounded_fifo_lifo_witness:
  "next_ref example_app = 1
   \<and> edit_history ((save_edit_state ^^ 20) example_app)
       = [next_ref example_app ..< next_ref example_app + 20]
   \<and> edit_history ((save_edit_state ^^ 21) example_app)
       = [next_ref example_app + 1 ..< next_ref example_app + 21]
   \<and> edit_history full_history_app = [1 ..< 21]
   \<and> next_ref full_history_app = 21
   \<and> edit_history (save_edit_state full_history_app)
       = tl (edit_history full_history_app) @ [next_ref full_history_app]
   \<and> length (edit_history (save_edit_state full_history_app)) \<le> 20
   \<and> processed_image (undo_edit (save_edit_state full_history_app))
       = Some (next_ref full_history_app)
   \<and> edit_history (undo_edit (save_edit_state full_history_app))
       = tl (edit_history full_history_app)"
proof -
  have e: "processed_image example_app = Some 0 \<and> edit_history example_app = []"
    and e': "next_ref example_app = 1"
    by (simp_all add: example_app_def)
  have f: "processed_image full_history_app = Some 0 \<and> length (edit_history full_history_app) = 20"
    and f': "processed_image full_history_app = Some 0"
      "length (edit_history full_history_app) \<le> 20"
      "20 \<le> length (edit_history full_history_app)"
    and f'': "next_ref full_history_app = 21" "edit_history full_history_app = [1 ..< 21]"
    by (simp_all add: full_history_app_def example_app_def)
  note t1 = history_bounded_fifo_lifo [of example_app 0]
  note t2 = history_bounded_fifo_lifo [of full_history_app 0]
  from e t1
  have 1: "edit_history ((save_edit_state ^^ 20) example_app)
       = [next_ref example_app ..< next_ref example_app + 20]"
    and 2: "edit_history ((save_edit_state ^^ 21) example_app)
       = [next_ref example_app + 1 ..< next_ref example_app + 21]"
    by blast+
  from f t2
  have 3: "edit_history (save_edit_state full_history_app)
       = tl (edit_history full_history_app) @ [next_ref full_history_app]"
    by blast
  from f'(2) t2
  have 4: "length (edit_history (save_edit_state full_history_app)) \<le> 20"
    by blast
  from f'(1) t2
  have 5: "processed_image (undo_edit (save_edit_state full_history_app))
       = Some (next_ref full_history_app)"
    and 6: "edit_history (undo_edit (save_edit_state full_history_app))
       = (if 20 \<le> length (edit_history full_history_app)
          then tl (edit_history full_history_app) else edit_history full_history_app)"
    by blast+
  from 6 f'(3) have 7: "edit_history (undo_edit (save_edit_state full_history_app))
       = tl (edit_history full_history_app)"
    by simp
  from e' f'' 1 2 3 4 5 7 show ?thesis
    by blast
qed


section \<open>Dimension handlers and reprocessing\<close>


lemma py_round_near:
  assumes "\<bar>x - of_int k\<bar> < 1 / 2"
  shows "py_round x = k"
proof (cases "of_int k \<le> x")
  case True
  with assms have "\<lfloor>x\<rfloor> = k"
    by linarith
  with assms True show ?thesis
    by (simp add: py_round_def Let_def)
next
  case False
  with assms have f: "\<lfloor>x\<rfloor> = k - 1"
    by linarith
  with assms False have "x - of_int \<lfloor>x\<rfloor> > 1 / 2"
    by simp
  with f show ?thesis
    by (simp add: py_round_def Let_def)
qed

lemma py_round_of_int: "py_round (of_int k) = k"
  by (rule py_round_near) simp






















lemma update_preview_loaded:
  assumes "original_image s = Some orig" and "\<not> processing s"
  shows "\<exists>img s2.
      process_image ext (update_undo_button (s\<lparr>processing := True, edit_history := []\<rparr>))
        = (Some img, s2)
    \<and> update_preview ext s =
        s2\<lparr>heap := (heap s2)(next_ref s2 := img), next_ref := Suc (next_ref s2),
           processed_image := Some (next_ref s2), processing := False\<rparr>
    \<and> edit_history s2 = [] \<and> undo_label s2 = 0 \<and> original_image s2 = Some orig
    \<and> next_ref s2 = next_ref s \<and> heap s2 = heap s"
proof -
  let ?s1 = "update_undo_button (s\<lparr>processing := True, edit_history := []\<rparr>)"
  obtain res s2 where pi: "process_image ext ?s1 = (res, s2)"
    by (cases "process_image ext ?s1")
  from assms(1) have o1: "original_image ?s1 = Some orig"
    by (simp add: update_undo_button_def)
  from pi o1 obtain img where res: "res = Some img"
    by (auto simp: process_image_def Let_def split: prod.splits)
  from pi o1 have keep: "edit_history s2 = edit_history ?s1 \<and> undo_label s2 = undo_label ?s1
      \<and> original_image s2 = original_image ?s1 \<and> next_ref s2 = next_ref ?s1
      \<and> heap s2 = heap ?s1"
    by (auto simp: process_image_def remove_background_ai_def Let_def
        split: prod.splits if_splits option.splits)
  from assms pi res have "update_preview ext s =
      s2\<lparr>heap := (heap s2)(next_ref s2 := img), next_ref := Suc (next_ref s2),
         processed_image := Some (next_ref s2), processing := False\<rparr>"
    by (simp add: update_preview_def Let_def)
  with pi res keep assms(1) show ?thesis
    by (simp add: update_undo_button_def)
qed

lemma wf_app_update_preview: "wf_app s \<Longrightarrow> wf_app (update_preview ext s)"
proof (cases "original_image s = None \<or> processing s")
  case True
  assume "wf_app s"
  with True show ?thesis
    by (auto simp: update_preview_def split: option.splits)
next
  case False
  then obtain orig where o: "original_image s = Some orig" and p: "\<not> processing s"
    by auto
  from update_preview_loaded [OF o p, of ext]
  obtain img s2 where "update_preview ext s =
        s2\<lparr>heap := (heap s2)(next_ref s2 := img), next_ref := Suc (next_ref s2),
           processed_image := Some (next_ref s2), processing := False\<rparr>"
    and "edit_history s2 = []"
    by blast
  then show ?thesis
    by (simp add: wf_app_def)
qed







end
